theory Spec2Isabelle
  imports Main
begin

section \<open>JavaScript values\<close>

text \<open>
  The values the examples of \<^verbatim>\<open>01_Closure.js\<close> compute with. Only two things about a value
  matter to the code: whether it is truthy (the test \<^verbatim>\<open>if (cache[url])\<close>) and, for numbers, how a
  template literal prints it. Numbers are modelled on the safe integers (see \<open>safe_integer\<close>
  below), where JavaScript's doubles are exact; \<open>JNaN\<close> stands for the one number that is
  neither zero nor truthy. An object is its address; \<open>JBuiltin n\<close> is
  the value found under the name \<open>n\<close> on \<^verbatim>\<open>Object.prototype\<close>.
\<close>

datatype jsval =
    JUndefined
  | JNull
  | JBool bool
  | JNum int
  | JNaN
  | JBigInt int
  | JStr string
  | JSymbol nat
  | JObject nat
  | JBuiltin string

fun truthy :: "jsval \<Rightarrow> bool" where
  "truthy JUndefined = False"
| "truthy JNull = False"
| "truthy (JBool b) = b"
| "truthy (JNum n) = (n \<noteq> 0)"
| "truthy JNaN = False"
| "truthy (JBigInt n) = (n \<noteq> 0)"
| "truthy (JStr s) = (s \<noteq> [])"
| "truthy (JSymbol _) = True"
| "truthy (JObject _) = True"
| "truthy (JBuiltin _) = True"

subsection \<open>Numbers in template literals\<close>

definition digit_char :: "nat \<Rightarrow> char" where
  "digit_char d = ''0123456789'' ! d"

function decimal :: "nat \<Rightarrow> string" where
  "decimal n = (if n < 10 then [digit_char n] else decimal (n div 10) @ [digit_char (n mod 10)])"
  by pat_completeness auto
termination
  by (relation "measure id") auto

declare decimal.simps [simp del]


text \<open>What a template literal prints for a safe integer.\<close>

definition number_to_string :: "int \<Rightarrow> string" where
  "number_to_string i = (if i < 0 then CHR ''-'' # decimal (nat (- i)) else decimal (nat i))"

section \<open>The API cache (\<^verbatim>\<open>createAPICache\<close>)\<close>

text \<open>
  \<^verbatim>\<open>const cache = {}\<close> is an ordinary object: its own properties are the entries the wrapper
  stored, and a name it does not own is looked up on its prototype, \<^verbatim>\<open>Object.prototype\<close>. The
  store maps a key to the own property of that name. Keys are strings, as URLs are; property
  names are compared as they are, character by character.
\<close>

type_synonym cache_store = "string \<rightharpoonup> jsval"

text \<open>
  The property names of \<^verbatim>\<open>Object.prototype\<close>: those of the language standard and those of its
  annex for web browsers, which Node.js has as well. Each holds a function, but
  \<^verbatim>\<open>__proto__\<close>, an accessor that gives \<^verbatim>\<open>Object.prototype\<close> itself: all of them are truthy.
\<close>

definition Object_prototype_names :: "string list" where
  "Object_prototype_names =
     [''constructor'', ''hasOwnProperty'', ''isPrototypeOf'', ''propertyIsEnumerable'',
      ''toLocaleString'', ''toString'', ''valueOf'', ''__proto__'',
      ''__defineGetter__'', ''__defineSetter__'', ''__lookupGetter__'', ''__lookupSetter__'']"

text \<open>The expression \<^verbatim>\<open>cache[url]\<close>: the own property, else the inherited one, else undefined.\<close>

definition cache_get :: "cache_store \<Rightarrow> string \<Rightarrow> jsval" where
  "cache_get c url =
     (case c url of
        Some v \<Rightarrow> v
      | None \<Rightarrow> if url \<in> set Object_prototype_names then JBuiltin url else JUndefined)"

text \<open>
  The assignment \<^verbatim>\<open>cache[url] = result\<close> defines or overwrites the own property \<open>url\<close>. The
  wrapper reaches it only after \<^verbatim>\<open>cache[url]\<close> was falsy, so never with a name that is only
  inherited (lemma \<open>falsy_not_inherited\<close> below); of those, \<^verbatim>\<open>__proto__\<close> alone would run the
  inherited setter instead of defining an own property.
\<close>

definition cache_set :: "cache_store \<Rightarrow> string \<Rightarrow> jsval \<Rightarrow> cache_store" where
  "cache_set c url result = c(url \<mapsto> result)"

text \<open>
  The promise of the underlying operation settles one way or the other; \<open>'w\<close> is whatever
  the operation itself reads and changes (the network, a counter).
\<close>

datatype outcome = Fulfilled jsval | Rejected jsval

type_synonym 'w fetcher = "string \<Rightarrow> 'w \<Rightarrow> outcome \<times> 'w"

text \<open>What the returned function closes over: its \<^verbatim>\<open>fetchFunction\<close> and its own \<^verbatim>\<open>cache\<close>.\<close>

record 'w closure_env =
  fetchFunction :: "'w fetcher"
  cache :: cache_store

datatype log_line = ReturningFromCache string | FetchingFromAPI string

text \<open>
  The program state: the environments of the wrappers created so far (a wrapper is the index
  of its environment), the world of the underlying operations, the lines written by
  \<^verbatim>\<open>console.log\<close>, and \<open>invoked\<close>, a record of every invocation of an underlying operation:
  the wrapper that made it, the argument, and how it settled.
\<close>

record 'w state =
  closures :: "'w closure_env list"
  world :: 'w
  console :: "log_line list"
  invoked :: "(nat \<times> string \<times> outcome) list"

definition createAPICache :: "'w fetcher \<Rightarrow> 'w state \<Rightarrow> nat \<times> 'w state" where
  "createAPICache f s =
     (length (closures s),
      s\<lparr>closures := closures s @ [\<lparr>fetchFunction = f, cache = Map.empty\<rparr>]\<rparr>)"

text \<open>
  One call of the wrapper \<open>w\<close>, run until its promise settles. \<open>None\<close>: there is no such
  wrapper. The underlying operation acts on the world only; it does not call a wrapper itself.
\<close>

definition call :: "nat \<Rightarrow> string \<Rightarrow> 'w state \<Rightarrow> (outcome \<times> 'w state) option" where
  "call w url s =
     (if w < length (closures s) then
        let env = closures s ! w in
        if truthy (cache_get (cache env) url) then
          Some (Fulfilled (cache_get (cache env) url),
                s\<lparr>console := console s @ [ReturningFromCache url]\<rparr>)
        else
          (case fetchFunction env url (world s) of
             (Rejected e, world') \<Rightarrow>
               Some (Rejected e,
                     s\<lparr>world := world',
                       console := console s @ [FetchingFromAPI url],
                       invoked := invoked s @ [(w, url, Rejected e)]\<rparr>)
           | (Fulfilled result, world') \<Rightarrow>
               Some (Fulfilled result,
                     s\<lparr>closures := (closures s)[w := env\<lparr>cache := cache_set (cache env) url result\<rparr>],
                       world := world',
                       console := console s @ [FetchingFromAPI url],
                       invoked := invoked s @ [(w, url, Fulfilled result)]\<rparr>))
      else None)"

text \<open>Calls made one after the other, each awaited before the next; a rejection is caught.\<close>

fun sequential_calls :: "(nat \<times> string) list \<Rightarrow> 'w state \<Rightarrow> (outcome list \<times> 'w state) option" where
  "sequential_calls [] s = Some ([], s)"
| "sequential_calls ((w, url) # cs) s =
     (case call w url s of
        None \<Rightarrow> None
      | Some (r, s') \<Rightarrow>
          (case sequential_calls cs s' of
             None \<Rightarrow> None
           | Some (rs, s'') \<Rightarrow> Some (r # rs, s'')))"



text \<open>\<^verbatim>\<open>fakeFetch\<close> resolves, after its timer, with \<^verbatim>\<open>`Data from ${url}`\<close>.\<close>

definition fakeFetch :: "'w fetcher" where
  "fakeFetch url wd = (Fulfilled (JStr (''Data from '' @ url)), wd)"

definition initial_state :: "'w \<Rightarrow> 'w state" where
  "initial_state wd = \<lparr>closures = [], world = wd, console = [], invoked = []\<rparr>"

text \<open>The number of invocations of the underlying operation made by wrapper \<open>w\<close>.\<close>

definition invocation_count :: "nat \<Rightarrow> 'w state \<Rightarrow> nat" where
  "invocation_count w s = length (filter (\<lambda>i. fst i = w) (invoked s))"

subsection \<open>Underlying operations used as examples\<close>

text \<open>An endpoint that answers with the number of requests it has served before.\<close>

definition counting_fetch :: "nat fetcher" where
  "counting_fetch url n = (Fulfilled (JNum (int n)), Suc n)"

text \<open>An endpoint whose body is always empty.\<close>

definition empty_fetch :: "'w fetcher" where
  "empty_fetch url wd = (Fulfilled (JStr []), wd)"

text \<open>An operation that throws on its first invocation and behaves like \<^verbatim>\<open>fakeFetch\<close> after.\<close>

definition flaky_fetch :: "nat fetcher" where
  "flaky_fetch url n =
     (if n = 0 then (Rejected (JStr ''Network error''), Suc n)
      else (Fulfilled (JStr (''Data from '' @ url)), Suc n))"

subsection \<open>States of the examples\<close>

text \<open>A fresh wrapper around \<^verbatim>\<open>fakeFetch\<close>, and the states the usage example goes through.\<close>

definition fake_s0 :: "unit state" where
  "fake_s0 = snd (createAPICache fakeFetch (initial_state ()))"

definition fake_sA :: "unit state" where
  "fake_sA =
     \<lparr>closures = [\<lparr>fetchFunction = fakeFetch, cache = [''A'' \<mapsto> JStr ''Data from A'']\<rparr>],
      world = (),
      console = [FetchingFromAPI ''A''],
      invoked = [(0, ''A'', Fulfilled (JStr ''Data from A''))]\<rparr>"

definition fake_sAA :: "unit state" where
  "fake_sAA = fake_sA\<lparr>console := [FetchingFromAPI ''A'', ReturningFromCache ''A'']\<rparr>"

definition fake_sAAB :: "unit state" where
  "fake_sAAB =
     \<lparr>closures = [\<lparr>fetchFunction = fakeFetch,
                   cache = [''A'' \<mapsto> JStr ''Data from A'', ''B'' \<mapsto> JStr ''Data from B'']\<rparr>],
      world = (),
      console = [FetchingFromAPI ''A'', ReturningFromCache ''A'', FetchingFromAPI ''B''],
      invoked = [(0, ''A'', Fulfilled (JStr ''Data from A'')), (0, ''B'', Fulfilled (JStr ''Data from B''))]\<rparr>"

text \<open>A fresh wrapper around the counting endpoint, and the states after one and two calls with \<open>"k"\<close>.\<close>

definition counting_s0 :: "nat state" where
  "counting_s0 = snd (createAPICache counting_fetch (initial_state 0))"

definition counting_s1 :: "nat state" where
  "counting_s1 =
     \<lparr>closures = [\<lparr>fetchFunction = counting_fetch, cache = [''k'' \<mapsto> JNum 0]\<rparr>],
      world = 1,
      console = [FetchingFromAPI ''k''],
      invoked = [(0, ''k'', Fulfilled (JNum 0))]\<rparr>"

definition counting_s2 :: "nat state" where
  "counting_s2 =
     \<lparr>closures = [\<lparr>fetchFunction = counting_fetch, cache = [''k'' \<mapsto> JNum 1]\<rparr>],
      world = 2,
      console = [FetchingFromAPI ''k'', FetchingFromAPI ''k''],
      invoked = [(0, ''k'', Fulfilled (JNum 0)), (0, ''k'', Fulfilled (JNum 1))]\<rparr>"

subsection \<open>Counting invocations, and where entries come from\<close>



text \<open>
  Every entry of every store was produced by the underlying operation of that wrapper, invoked
  with that key. It holds when no store has an entry, and every call keeps it.
\<close>

definition provenance :: "'w state \<Rightarrow> bool" where
  "provenance s =
     (\<forall>w k v. w < length (closures s) \<longrightarrow> cache (closures s ! w) k = Some v \<longrightarrow>
        (w, k, Fulfilled v) \<in> set (invoked s))"

subsection \<open>More states of the examples\<close>

text \<open>A fresh wrapper around the operation that throws first, and the states after calls with
  \<open>"X"\<close> (rejected), \<open>"Y"\<close> and \<open>"X"\<close> again.\<close>

definition flaky_s0 :: "nat state" where
  "flaky_s0 = snd (createAPICache flaky_fetch (initial_state 0))"

definition flaky_s1 :: "nat state" where
  "flaky_s1 =
     \<lparr>closures = [\<lparr>fetchFunction = flaky_fetch, cache = Map.empty\<rparr>],
      world = 1,
      console = [FetchingFromAPI ''X''],
      invoked = [(0, ''X'', Rejected (JStr ''Network error''))]\<rparr>"

definition flaky_s2 :: "nat state" where
  "flaky_s2 =
     \<lparr>closures = [\<lparr>fetchFunction = flaky_fetch, cache = [''Y'' \<mapsto> JStr ''Data from Y'']\<rparr>],
      world = 2,
      console = [FetchingFromAPI ''X'', FetchingFromAPI ''Y''],
      invoked = [(0, ''X'', Rejected (JStr ''Network error'')), (0, ''Y'', Fulfilled (JStr ''Data from Y''))]\<rparr>"

definition flaky_s3 :: "nat state" where
  "flaky_s3 =
     \<lparr>closures = [\<lparr>fetchFunction = flaky_fetch,
                   cache = [''Y'' \<mapsto> JStr ''Data from Y'', ''X'' \<mapsto> JStr ''Data from X'']\<rparr>],
      world = 3,
      console = [FetchingFromAPI ''X'', FetchingFromAPI ''Y'', FetchingFromAPI ''X''],
      invoked = [(0, ''X'', Rejected (JStr ''Network error'')), (0, ''Y'', Fulfilled (JStr ''Data from Y'')),
                 (0, ''X'', Fulfilled (JStr ''Data from X''))]\<rparr>"









section \<open>The login attempt tracker (\<^verbatim>\<open>loginSystem\<close>)\<close>

record login_env =
  attempts :: int

definition maxAttempts :: int where
  "maxAttempts = 3"

definition loginSystem :: login_env where
  "loginSystem = \<lparr>attempts = 0\<rparr>"

text \<open>The function \<^verbatim>\<open>loginSystem\<close> returns, on its captured \<^verbatim>\<open>attempts\<close>.\<close>

definition login :: "string \<Rightarrow> login_env \<Rightarrow> string \<times> login_env" where
  "login password env =
     (if attempts env \<ge> maxAttempts then (''Account locked!'', env)
      else if password = ''secret123'' then (''Login successful!'', env)
      else
        let env' = env\<lparr>attempts := attempts env + 1\<rparr>
        in (''Wrong password! '' @ number_to_string (maxAttempts - attempts env') @ '' tries left'',
            env'))"

fun login_calls :: "string list \<Rightarrow> login_env \<Rightarrow> string list \<times> login_env" where
  "login_calls [] env = ([], env)"
| "login_calls (password # rest) env =
     (case login password env of
        (message, env') \<Rightarrow>
          (case login_calls rest env' of (messages, env'') \<Rightarrow> (message # messages, env'')))"

definition wrong_passwords :: "string list \<Rightarrow> nat" where
  "wrong_passwords ps = length (filter (\<lambda>p. p \<noteq> ''secret123'') ps)"

section \<open>The coupon (\<^verbatim>\<open>createCoupon\<close>)\<close>







section \<open>One call of the wrapper\<close>

lemmas eval_defs = call_def createAPICache_def initial_state_def fakeFetch_def cache_get_def
  cache_set_def Object_prototype_names_def counting_fetch_def flaky_fetch_def empty_fetch_def Let_def

lemma call_valid: "call w url s = Some (r, s') \<Longrightarrow> w < length (closures s)"
  by (simp add: call_def split: if_splits)

lemma call_hit:
  "w < length (closures s) \<Longrightarrow> truthy (cache_get (cache (closures s ! w)) url) \<Longrightarrow>
   call w url s = Some (Fulfilled (cache_get (cache (closures s ! w)) url),
                        s\<lparr>console := console s @ [ReturningFromCache url]\<rparr>)"
  by (simp add: call_def)

lemma call_miss_Fulfilled:
  "w < length (closures s) \<Longrightarrow> \<not> truthy (cache_get (cache (closures s ! w)) url) \<Longrightarrow>
   fetchFunction (closures s ! w) url (world s) = (Fulfilled result, wd) \<Longrightarrow>
   call w url s =
     Some (Fulfilled result,
           s\<lparr>closures := (closures s)[w := (closures s ! w)\<lparr>cache := cache_set (cache (closures s ! w)) url result\<rparr>],
             world := wd,
             console := console s @ [FetchingFromAPI url],
             invoked := invoked s @ [(w, url, Fulfilled result)]\<rparr>)"
  by (simp add: call_def Let_def)

lemma call_miss_Rejected:
  "w < length (closures s) \<Longrightarrow> \<not> truthy (cache_get (cache (closures s ! w)) url) \<Longrightarrow>
   fetchFunction (closures s ! w) url (world s) = (Rejected e, wd) \<Longrightarrow>
   call w url s =
     Some (Rejected e,
           s\<lparr>world := wd,
             console := console s @ [FetchingFromAPI url],
             invoked := invoked s @ [(w, url, Rejected e)]\<rparr>)"
  by (simp add: call_def)

lemma call_cases:
  assumes "call w url s = Some (r, s')"
  obtains
    (hit) "w < length (closures s)" "truthy (cache_get (cache (closures s ! w)) url)"
      "r = Fulfilled (cache_get (cache (closures s ! w)) url)"
      "s' = s\<lparr>console := console s @ [ReturningFromCache url]\<rparr>"
  | (stored) result wd where "w < length (closures s)" "\<not> truthy (cache_get (cache (closures s ! w)) url)"
      "fetchFunction (closures s ! w) url (world s) = (Fulfilled result, wd)"
      "r = Fulfilled result"
      "s' = s\<lparr>closures := (closures s)[w := (closures s ! w)\<lparr>cache := cache_set (cache (closures s ! w)) url result\<rparr>],
             world := wd,
             console := console s @ [FetchingFromAPI url],
             invoked := invoked s @ [(w, url, Fulfilled result)]\<rparr>"
  | (failed) e wd where "w < length (closures s)" "\<not> truthy (cache_get (cache (closures s ! w)) url)"
      "fetchFunction (closures s ! w) url (world s) = (Rejected e, wd)"
      "r = Rejected e"
      "s' = s\<lparr>world := wd,
             console := console s @ [FetchingFromAPI url],
             invoked := invoked s @ [(w, url, Rejected e)]\<rparr>"
proof -
  have v: "w < length (closures s)" using assms by (rule call_valid)
  show thesis
  proof (cases "truthy (cache_get (cache (closures s ! w)) url)")
    case True
    from assms have "r = Fulfilled (cache_get (cache (closures s ! w)) url)"
      and "s' = s\<lparr>console := console s @ [ReturningFromCache url]\<rparr>"
      by (auto simp: call_hit [OF v True])
    with v True show ?thesis by (rule hit)
  next
    case False
    obtain o' wd where f: "fetchFunction (closures s ! w) url (world s) = (o', wd)"
      by (cases "fetchFunction (closures s ! w) url (world s)")
    show ?thesis
    proof (cases o')
      case (Fulfilled result)
      then have f': "fetchFunction (closures s ! w) url (world s) = (Fulfilled result, wd)"
        using f by simp
      from assms have "r = Fulfilled result"
        and "s' = s\<lparr>closures := (closures s)[w := (closures s ! w)\<lparr>cache := cache_set (cache (closures s ! w)) url result\<rparr>],
             world := wd,
             console := console s @ [FetchingFromAPI url],
             invoked := invoked s @ [(w, url, Fulfilled result)]\<rparr>"
        by (auto simp: call_miss_Fulfilled [OF v False f'])
      with v False f' show ?thesis by (rule stored)
    next
      case (Rejected e)
      then have f': "fetchFunction (closures s ! w) url (world s) = (Rejected e, wd)"
        using f by simp
      from assms have "r = Rejected e"
        and "s' = s\<lparr>world := wd,
             console := console s @ [FetchingFromAPI url],
             invoked := invoked s @ [(w, url, Rejected e)]\<rparr>"
        by (auto simp: call_miss_Rejected [OF v False f'])
      with v False f' show ?thesis by (rule failed)
    qed
  qed
qed

lemma falsy_not_inherited:
  "\<not> truthy (cache_get c url) \<Longrightarrow> c url \<noteq> None \<or> url \<notin> set Object_prototype_names"
  by (auto simp: cache_get_def split: option.splits)

lemma call_total: "w < length (closures s) \<Longrightarrow> \<exists>r s'. call w url s = Some (r, s')"
  by (auto simp: call_def Let_def split: prod.splits outcome.splits)

lemma call_length: "call w url s = Some (r, s') \<Longrightarrow> length (closures s') = length (closures s)"
  by (erule call_cases) simp_all

lemma call_other_closure:
  "call w url s = Some (r, s') \<Longrightarrow> w' \<noteq> w \<Longrightarrow> closures s' ! w' = closures s ! w'"
  by (erule call_cases) simp_all


lemma call_cache_other_key:
  "call w url s = Some (r, s') \<Longrightarrow> k \<noteq> url \<Longrightarrow> cache (closures s' ! w) k = cache (closures s ! w) k"
  by (erule call_cases) (simp_all add: cache_set_def)

lemma call_lookup_other:
  assumes "call w url s = Some (r, s')" and "(w', k) \<noteq> (w, url)"
  shows "cache (closures s' ! w') k = cache (closures s ! w') k"
proof (cases "w' = w")
  case True
  with assms have "k \<noteq> url" by simp
  with assms(1) True show ?thesis by (simp add: call_cache_other_key)
next
  case False
  with assms(1) show ?thesis by (simp add: call_other_closure)
qed

lemma call_lookup_unchanged:
  assumes "call w url s = Some (r, s')" and "(w', k) \<noteq> (w, url)"
  shows "cache_get (cache (closures s' ! w')) k = cache_get (cache (closures s ! w')) k"
  using call_lookup_other [OF assms] by (simp add: cache_get_def)

lemma call_truthy_preserved:
  assumes "call w url s = Some (r, s')" and "truthy (cache_get (cache (closures s ! w')) k)"
  shows "cache_get (cache (closures s' ! w')) k = cache_get (cache (closures s ! w')) k"
proof (cases "(w', k) = (w, url)")
  case True
  with assms show ?thesis by (elim call_cases) simp_all
next
  case False
  with assms(1) have "cache (closures s' ! w') k = cache (closures s ! w') k"
    by (rule call_lookup_other)
  then show ?thesis by (simp add: cache_get_def)
qed

lemma call_stores_result:
  assumes "call w url s = Some (Fulfilled v, s')"
  shows "cache_get (cache (closures s' ! w)) url = v"
  using assms by (elim call_cases) (simp_all add: cache_set_def cache_get_def)

lemma call_invokes_when_falsy:
  assumes "w < length (closures s)" and "\<not> truthy (cache_get (cache (closures s ! w)) k)"
  shows "\<exists>r s'. call w k s = Some (r, s') \<and> invoked s' = invoked s @ [(w, k, r)]"
proof -
  obtain r wd where f: "fetchFunction (closures s ! w) k (world s) = (r, wd)"
    by (cases "fetchFunction (closures s ! w) k (world s)")
  show ?thesis
  proof (cases r)
    case (Fulfilled v)
    with assms f show ?thesis by (simp add: call_miss_Fulfilled)
  next
    case (Rejected e)
    with assms f show ?thesis by (simp add: call_miss_Rejected)
  qed
qed


lemma call_result_depends:
  assumes "w < length (closures s)" "w < length (closures t)"
    and "closures s ! w = closures t ! w" "world s = world t"
  shows "map_option fst (call w k s) = map_option fst (call w k t)"
  using assms by (simp add: call_def Let_def split: prod.splits outcome.splits)



lemma call_provenance:
  assumes step: "call w k s = Some (r, s')" and inv: "provenance s"
  shows "provenance s'"
  unfolding provenance_def
proof (intro allI impI)
  fix w' k' v
  assume valid: "w' < length (closures s')" and entry: "cache (closures s' ! w') k' = Some v"
  from step have len: "length (closures s') = length (closures s)" by (rule call_length)
  from step have mono: "set (invoked s) \<subseteq> set (invoked s')"
    by (elim call_cases) auto
  show "(w', k', Fulfilled v) \<in> set (invoked s')"
  proof (cases "(w', k') = (w, k)")
    case False
    with step have "cache (closures s' ! w') k' = cache (closures s ! w') k'"
      by (rule call_lookup_other)
    with entry valid len inv have "(w', k', Fulfilled v) \<in> set (invoked s)"
      by (simp add: provenance_def)
    with mono show ?thesis by blast
  next
    case True
    then have eq: "w' = w" "k' = k" by simp_all
    from step show ?thesis
    proof (cases rule: call_cases)
      case hit
      with entry valid len inv eq show ?thesis by (simp add: provenance_def)
    next
      case (stored result wd)
      with entry eq show ?thesis by (simp add: cache_set_def)
    next
      case (failed e wd)
      with entry valid len inv eq show ?thesis by (simp add: provenance_def)
    qed
  qed
qed

section \<open>Sequences of calls\<close>

lemma sequential_calls_length:
  "sequential_calls cs s = Some (rs, s') \<Longrightarrow> length (closures s') = length (closures s)"
proof (induction cs arbitrary: s rs)
  case Nil
  then show ?case by simp
next
  case (Cons c cs)
  obtain w' url where c: "c = (w', url)" by (cases c)
  from Cons.prems(1) c obtain r s1 rs1 where
    step: "call w' url s = Some (r, s1)" and rest: "sequential_calls cs s1 = Some (rs1, s')"
    by (auto split: option.splits)
  from rest have "length (closures s') = length (closures s1)" by (rule Cons.IH)
  with step show ?case by (simp add: call_length)
qed

lemma sequential_calls_truthy_preserved:
  "sequential_calls cs s = Some (rs, s') \<Longrightarrow> truthy (cache_get (cache (closures s ! w)) k) \<Longrightarrow>
   cache_get (cache (closures s' ! w)) k = cache_get (cache (closures s ! w)) k"
proof (induction cs arbitrary: s rs)
  case Nil
  then show ?case by simp
next
  case (Cons c cs)
  obtain w' url where c: "c = (w', url)" by (cases c)
  from Cons.prems(1) c obtain r s1 rs1 where
    step: "call w' url s = Some (r, s1)" and rest: "sequential_calls cs s1 = Some (rs1, s')"
    by (auto split: option.splits)
  from step Cons.prems(2) have eq: "cache_get (cache (closures s1 ! w)) k = cache_get (cache (closures s ! w)) k"
    by (rule call_truthy_preserved)
  with Cons.prems(2) have "truthy (cache_get (cache (closures s1 ! w)) k)" by simp
  with rest have "cache_get (cache (closures s' ! w)) k = cache_get (cache (closures s1 ! w)) k"
    by (rule Cons.IH)
  with eq show ?case by simp
qed

lemma sequential_calls_lookup_unchanged:
  "sequential_calls cs s = Some (rs, s') \<Longrightarrow> (w, k) \<notin> set cs \<Longrightarrow>
   cache_get (cache (closures s' ! w)) k = cache_get (cache (closures s ! w)) k"
proof (induction cs arbitrary: s rs)
  case Nil
  then show ?case by simp
next
  case (Cons c cs)
  obtain w' url where c: "c = (w', url)" by (cases c)
  from Cons.prems(1) c obtain r s1 rs1 where
    step: "call w' url s = Some (r, s1)" and rest: "sequential_calls cs s1 = Some (rs1, s')"
    by (auto split: option.splits)
  from Cons.prems(2) c have ne: "(w, k) \<noteq> (w', url)" and notin: "(w, k) \<notin> set cs" by auto
  from step ne have "cache_get (cache (closures s1 ! w)) k = cache_get (cache (closures s ! w)) k"
    by (rule call_lookup_unchanged)
  moreover from rest notin have "cache_get (cache (closures s' ! w)) k = cache_get (cache (closures s1 ! w)) k"
    by (rule Cons.IH)
  ultimately show ?case by simp
qed



lemma sequential_calls_provenance:
  "sequential_calls cs s = Some (rs, s') \<Longrightarrow> provenance s \<Longrightarrow> provenance s'"
proof (induction cs arbitrary: s rs)
  case Nil
  then show ?case by simp
next
  case (Cons c cs)
  obtain w' url where c: "c = (w', url)" by (cases c)
  from Cons.prems(1) c obtain r s1 rs1 where
    step: "call w' url s = Some (r, s1)" and rest: "sequential_calls cs s1 = Some (rs1, s')"
    by (auto split: option.splits)
  from step Cons.prems(2) have "provenance s1" by (rule call_provenance)
  with rest show ?case by (rule Cons.IH)
qed

section \<open>Creating a wrapper\<close>



lemma createAPICache_provenance:
  assumes "createAPICache f s = (a, s')" and "provenance s"
  shows "provenance s'"
  using assms by (auto simp: provenance_def createAPICache_def nth_append split: if_splits)

section \<open>Memoization\<close>

text \<open>
  Where a call of the wrapper with key \<open>k\<close> resolves with a truthy value \<open>v\<close>, the value is
  memoized: after any further sequential calls (of any wrapper, with any keys) a call with
  \<open>k\<close> returns \<open>v\<close> and changes nothing but the console; the underlying operation is not
  invoked again.
\<close>

theorem memo_truthy:
  assumes first: "call w k s = Some (Fulfilled v, s1)"
    and v: "truthy v"
    and later: "sequential_calls cs s1 = Some (rs, s2)"
  shows "call w k s2 = Some (Fulfilled v, s2\<lparr>console := console s2 @ [ReturningFromCache k]\<rparr>)"
proof -
  from first have "w < length (closures s)" by (rule call_valid)
  with first have "w < length (closures s1)" by (simp add: call_length)
  with later have valid: "w < length (closures s2)" by (simp add: sequential_calls_length)
  from first have stored: "cache_get (cache (closures s1 ! w)) k = v" by (rule call_stores_result)
  with v later have "cache_get (cache (closures s2 ! w)) k = v"
    by (simp add: sequential_calls_truthy_preserved)
  with valid v show ?thesis by (simp add: call_hit)
qed

text \<open>
  The usage example: after \<open>"A"\<close> resolved with \<open>"Data from A"\<close>, and after further calls
  with \<open>"A"\<close> and \<open>"B"\<close>, a call with \<open>"A"\<close> is served from the store.
\<close>

theorem memo_truthy_witness:
  "call 0 ''A'' fake_s0 = Some (Fulfilled (JStr ''Data from A''), fake_sA)
   \<and> truthy (JStr ''Data from A'')
   \<and> sequential_calls [(0, ''A''), (0, ''B'')] fake_sA
       = Some ([Fulfilled (JStr ''Data from A''), Fulfilled (JStr ''Data from B'')], fake_sAAB)
   \<and> call 0 ''A'' fake_sAAB
       = Some (Fulfilled (JStr ''Data from A''),
               fake_sAAB\<lparr>console := console fake_sAAB @ [ReturningFromCache ''A'']\<rparr>)"
proof -
  have h1: "call 0 ''A'' fake_s0 = Some (Fulfilled (JStr ''Data from A''), fake_sA)"
    by (simp add: eval_defs fake_s0_def fake_sA_def)
  have h2: "truthy (JStr ''Data from A'')" by simp
  have h3: "sequential_calls [(0, ''A''), (0, ''B'')] fake_sA
       = Some ([Fulfilled (JStr ''Data from A''), Fulfilled (JStr ''Data from B'')], fake_sAAB)"
    by (simp add: eval_defs fake_sA_def fake_sAAB_def)
  from memo_truthy [OF h1 h2 h3] h1 h2 h3 show ?thesis by simp
qed

text \<open>
  C1. Once a call with key \<open>k\<close> has resolved with \<open>v\<close>, every later call with \<open>k\<close> should
  return \<open>v\<close> without invoking the underlying operation again. For a falsy \<open>v\<close> the code does
  not: the counting endpoint answers the first call with \<open>0\<close>, which line 167 stores, but the
  test \<^verbatim>\<open>if (cache[url])\<close> of line 160 does not find it, so the second call with the same key
  invokes the endpoint again and returns \<open>1\<close>.
\<close>

theorem memo_falsy_refetched:
  "call 0 ''k'' counting_s0 = Some (Fulfilled (JNum 0), counting_s1)
   \<and> cache (closures counting_s1 ! 0) ''k'' = Some (JNum 0)
   \<and> call 0 ''k'' counting_s1 = Some (Fulfilled (JNum 1), counting_s2)
   \<and> invoked counting_s2 = invoked counting_s1 @ [(0, ''k'', Fulfilled (JNum 1))]"
  by (simp add: eval_defs counting_s0_def counting_s1_def counting_s2_def)

section \<open>The first call for a key\<close>

text \<open>
  For a key that has no entry and is not the name of a property of \<^verbatim>\<open>Object.prototype\<close>, the
  wrapper invokes the underlying operation once with that key, stores the result under the key
  and returns it.
\<close>

lemma first_call_fetches:
  assumes "w < length (closures s)"
    and "cache (closures s ! w) k = None" and "k \<notin> set Object_prototype_names"
    and "fetchFunction (closures s ! w) k (world s) = (Fulfilled r, wd)"
  shows "call w k s =
           Some (Fulfilled r,
                 s\<lparr>closures := (closures s)[w := (closures s ! w)\<lparr>cache := (cache (closures s ! w))(k \<mapsto> r)\<rparr>],
                   world := wd,
                   console := console s @ [FetchingFromAPI k],
                   invoked := invoked s @ [(w, k, Fulfilled r)]\<rparr>)"
proof -
  from assms(2,3) have "\<not> truthy (cache_get (cache (closures s ! w)) k)"
    by (simp add: cache_get_def)
  with assms(1,4) show ?thesis by (simp add: call_miss_Fulfilled cache_set_def)
qed

text \<open>
  C2. A key for which nothing was stored should reach the underlying operation. With the key
  \<open>"constructor"\<close> on a fresh wrapper it does not: \<^verbatim>\<open>cache["constructor"]\<close> is the inherited
  \<^verbatim>\<open>Object.prototype.constructor\<close>, which is truthy, so the wrapper returns that function as if
  it had been cached; the operation is not invoked and nothing is stored.
\<close>

theorem first_call_constructor:
  "cache (closures fake_s0 ! 0) ''constructor'' = None
   \<and> invoked fake_s0 = []
   \<and> call 0 ''constructor'' fake_s0
       = Some (Fulfilled (JBuiltin ''constructor''), fake_s0\<lparr>console := [ReturningFromCache ''constructor'']\<rparr>)"
  by (simp add: fake_s0_def eval_defs)

section \<open>Failures are not cached\<close>

text \<open>
  C3. If the underlying operation fails for key \<open>k\<close>, the wrapper call fails with the same
  error and the stores are as they were before, nothing being stored for \<open>k\<close>; a later call
  with \<open>k\<close>, also after calls with other keys or on other wrappers, invokes the underlying
  operation again.
\<close>

theorem failure_not_cached:
  assumes valid: "w < length (closures s)"
    and miss: "\<not> truthy (cache_get (cache (closures s ! w)) k)"
    and fails: "fetchFunction (closures s ! w) k (world s) = (Rejected e, wd)"
    and s1: "s1 = s\<lparr>world := wd, console := console s @ [FetchingFromAPI k],
                    invoked := invoked s @ [(w, k, Rejected e)]\<rparr>"
    and between: "sequential_calls cs s1 = Some (rs, s2)" "(w, k) \<notin> set cs"
  shows "call w k s = Some (Rejected e, s1)
       \<and> closures s1 = closures s
       \<and> (\<exists>r s3. call w k s2 = Some (r, s3) \<and> invoked s3 = invoked s2 @ [(w, k, r)])"
proof (intro conjI)
  from valid miss fails s1 show "call w k s = Some (Rejected e, s1)"
    by (simp add: call_miss_Rejected)
  from s1 show c: "closures s1 = closures s" by simp
  from between have "cache_get (cache (closures s2 ! w)) k = cache_get (cache (closures s1 ! w)) k"
    by (rule sequential_calls_lookup_unchanged)
  with c miss have miss2: "\<not> truthy (cache_get (cache (closures s2 ! w)) k)" by simp
  from valid c between(1) have "w < length (closures s2)"
    by (simp add: sequential_calls_length)
  then show "\<exists>r s3. call w k s2 = Some (r, s3) \<and> invoked s3 = invoked s2 @ [(w, k, r)]"
    using miss2 by (rule call_invokes_when_falsy)
qed

text \<open>
  The operation throws on its first invocation: the call with \<open>"X"\<close> is rejected and stores
  nothing; after a call with \<open>"Y"\<close>, the second call with \<open>"X"\<close> invokes the operation again,
  and this time resolves.
\<close>

theorem failure_not_cached_witness:
  "0 < length (closures flaky_s0)
   \<and> \<not> truthy (cache_get (cache (closures flaky_s0 ! 0)) ''X'')
   \<and> fetchFunction (closures flaky_s0 ! 0) ''X'' (world flaky_s0) = (Rejected (JStr ''Network error''), 1)
   \<and> sequential_calls [(0, ''Y'')] flaky_s1 = Some ([Fulfilled (JStr ''Data from Y'')], flaky_s2)
   \<and> (0, ''X'') \<notin> set [(0::nat, ''Y'')]
   \<and> call 0 ''X'' flaky_s0 = Some (Rejected (JStr ''Network error''), flaky_s1)
   \<and> closures flaky_s1 = closures flaky_s0
   \<and> (\<exists>r s3. call 0 ''X'' flaky_s2 = Some (r, s3) \<and> invoked s3 = invoked flaky_s2 @ [(0, ''X'', r)])
   \<and> call 0 ''X'' flaky_s2 = Some (Fulfilled (JStr ''Data from X''), flaky_s3)"
proof -
  have h1: "0 < length (closures flaky_s0)"
    by (simp add: flaky_s0_def eval_defs)
  have h2: "\<not> truthy (cache_get (cache (closures flaky_s0 ! 0)) ''X'')"
    by (simp add: flaky_s0_def eval_defs)
  have h3: "fetchFunction (closures flaky_s0 ! 0) ''X'' (world flaky_s0) = (Rejected (JStr ''Network error''), 1)"
    by (simp add: flaky_s0_def eval_defs)
  have h4: "flaky_s1 = flaky_s0\<lparr>world := 1, console := console flaky_s0 @ [FetchingFromAPI ''X''],
                    invoked := invoked flaky_s0 @ [(0, ''X'', Rejected (JStr ''Network error''))]\<rparr>"
    by (simp add: flaky_s0_def flaky_s1_def eval_defs)
  have h5: "sequential_calls [(0, ''Y'')] flaky_s1 = Some ([Fulfilled (JStr ''Data from Y'')], flaky_s2)"
    by (simp add: flaky_s1_def flaky_s2_def eval_defs)
  have h6: "(0, ''X'') \<notin> set [(0::nat, ''Y'')]" by simp
  have h7: "call 0 ''X'' flaky_s2 = Some (Fulfilled (JStr ''Data from X''), flaky_s3)"
    by (simp add: flaky_s2_def flaky_s3_def eval_defs) 
  from failure_not_cached [OF h1 h2 h3 h4 h5 h6] h1 h2 h3 h5 h6 h7 show ?thesis by blast
qed

section \<open>Key isolation\<close>

text \<open>
  From a state in which every entry was produced by the underlying operation, a call with a key
  \<open>k1\<close> that is not the name of a property of \<^verbatim>\<open>Object.prototype\<close> returns only a value that
  the operation produced for \<open>k1\<close>, and invokes the operation with no key but \<open>k1\<close>.
\<close>

lemma key_isolation_ordinary_keys:
  assumes inv: "provenance s" and step: "call w k1 s = Some (r, s')"
    and ordinary: "k1 \<notin> set Object_prototype_names"
  shows "(\<forall>v. r = Fulfilled v \<longrightarrow> (w, k1, Fulfilled v) \<in> set (invoked s'))
       \<and> (invoked s' = invoked s \<or> invoked s' = invoked s @ [(w, k1, r)])"
  using step
proof (cases rule: call_cases)
  case hit
  from hit(2) ordinary obtain v where v: "cache (closures s ! w) k1 = Some v"
    by (auto simp: cache_get_def split: option.splits)
  with hit(1) inv have "(w, k1, Fulfilled v) \<in> set (invoked s)" by (simp add: provenance_def)
  with hit v show ?thesis by (simp add: cache_get_def)
next
  case (stored result wd)
  then show ?thesis by simp
next
  case (failed e wd)
  then show ?thesis by simp
qed

text \<open>
  C4. A call with key \<open>k1\<close> should return only what the underlying operation produced for
  \<open>k1\<close>. After a call with \<open>"A"\<close>, the call with \<open>"toString"\<close> returns the inherited
  \<^verbatim>\<open>Object.prototype.toString\<close>: the operation was invoked once, with \<open>"A"\<close>, and never
  produced that value.
\<close>

theorem key_isolation_toString:
  "sequential_calls [(0, ''A''), (0, ''toString'')] fake_s0
     = Some ([Fulfilled (JStr ''Data from A''), Fulfilled (JBuiltin ''toString'')],
             fake_sA\<lparr>console := [FetchingFromAPI ''A'', ReturningFromCache ''toString'']\<rparr>)
   \<and> invoked (fake_sA\<lparr>console := [FetchingFromAPI ''A'', ReturningFromCache ''toString'']\<rparr>)
       = [(0, ''A'', Fulfilled (JStr ''Data from A''))]"
  by (simp add: fake_s0_def fake_sA_def eval_defs)

section \<open>The scenario of the usage example\<close>

text \<open>
  C5. Wrapping \<open>f(url) = "Data from " + url\<close>: the first call with \<open>"A"\<close> invokes the
  operation and returns \<open>"Data from A"\<close>; the second call with \<open>"A"\<close> returns the same with
  the invocation count still 1; the call with \<open>"B"\<close> returns \<open>"Data from B"\<close> and the count
  becomes 2.
\<close>

theorem scenario_A_A_B:
  "createAPICache fakeFetch (initial_state ()) = (0, fake_s0)
   \<and> invocation_count 0 fake_s0 = 0
   \<and> call 0 ''A'' fake_s0 = Some (Fulfilled (JStr ''Data from A''), fake_sA)
   \<and> invocation_count 0 fake_sA = 1
   \<and> call 0 ''A'' fake_sA = Some (Fulfilled (JStr ''Data from A''), fake_sAA)
   \<and> invocation_count 0 fake_sAA = 1
   \<and> call 0 ''B'' fake_sAA = Some (Fulfilled (JStr ''Data from B''), fake_sAAB)
   \<and> invocation_count 0 fake_sAAB = 2"
  by (simp add: eval_defs fake_s0_def fake_sA_def fake_sAA_def fake_sAAB_def invocation_count_def)

section \<open>Isolation of instances\<close>




section \<open>The frame of a call\<close>

text \<open>
  What a call of wrapper \<open>w\<close> with key \<open>k\<close> can change: entries for other keys and the
  environments of other wrappers are unchanged, a call served from the store changes no entry,
  and otherwise the store is either unchanged or becomes the old store with the resolved value
  under \<open>k\<close>, which happens only when \<^verbatim>\<open>cache[k]\<close> was not truthy.
\<close>

theorem call_frame:
  assumes "call w k s = Some (r, s1)"
  shows "(\<forall>k'. k' \<noteq> k \<longrightarrow> cache (closures s1 ! w) k' = cache (closures s ! w) k')
       \<and> (\<forall>w'. w' \<noteq> w \<longrightarrow> closures s1 ! w' = closures s ! w')
       \<and> (truthy (cache_get (cache (closures s ! w)) k) \<longrightarrow> closures s1 = closures s)
       \<and> (cache (closures s1 ! w) = cache (closures s ! w)
          \<or> (\<exists>v. r = Fulfilled v \<and> \<not> truthy (cache_get (cache (closures s ! w)) k)
                 \<and> cache (closures s1 ! w) = (cache (closures s ! w))(k \<mapsto> v)))"
proof (intro conjI allI impI)
  fix k' assume "k' \<noteq> k"
  with assms show "cache (closures s1 ! w) k' = cache (closures s ! w) k'"
    by (simp add: call_cache_other_key)
next
  fix w' assume "w' \<noteq> w"
  with assms show "closures s1 ! w' = closures s ! w'" by (simp add: call_other_closure)
next
  assume "truthy (cache_get (cache (closures s ! w)) k)"
  with assms show "closures s1 = closures s" by (elim call_cases) simp_all
next
  from assms show "cache (closures s1 ! w) = cache (closures s ! w)
          \<or> (\<exists>v. r = Fulfilled v \<and> \<not> truthy (cache_get (cache (closures s ! w)) k)
                 \<and> cache (closures s1 ! w) = (cache (closures s ! w))(k \<mapsto> v))"
    by (elim call_cases) (simp_all add: cache_set_def)
qed

text \<open>
  A call served from the store, a call that adds the entry for \<open>"B"\<close>, and a call that
  replaces the falsy entry for \<open>"k"\<close>.
\<close>

theorem call_frame_witness:
  "call 0 ''A'' fake_sA = Some (Fulfilled (JStr ''Data from A''), fake_sAA)
   \<and> truthy (cache_get (cache (closures fake_sA ! 0)) ''A'')
   \<and> closures fake_sAA = closures fake_sA
   \<and> call 0 ''B'' fake_sAA = Some (Fulfilled (JStr ''Data from B''), fake_sAAB)
   \<and> ''A'' \<noteq> ''B''
   \<and> cache (closures fake_sAAB ! 0) ''A'' = cache (closures fake_sAA ! 0) ''A''
   \<and> cache (closures fake_sAAB ! 0) = (cache (closures fake_sAA ! 0))(''B'' \<mapsto> JStr ''Data from B'')
   \<and> call 0 ''k'' counting_s1 = Some (Fulfilled (JNum 1), counting_s2)
   \<and> \<not> truthy (cache_get (cache (closures counting_s1 ! 0)) ''k'')
   \<and> cache (closures counting_s2 ! 0) = (cache (closures counting_s1 ! 0))(''k'' \<mapsto> JNum 1)"
proof -
  have h1: "call 0 ''A'' fake_sA = Some (Fulfilled (JStr ''Data from A''), fake_sAA)"
    by (simp add: fake_sA_def fake_sAA_def eval_defs)
  have t1: "truthy (cache_get (cache (closures fake_sA ! 0)) ''A'')"
    by (simp add: fake_sA_def eval_defs)
  have h2: "call 0 ''B'' fake_sAA = Some (Fulfilled (JStr ''Data from B''), fake_sAAB)"
    by (simp add: fake_sA_def fake_sAA_def fake_sAAB_def eval_defs)
  have n2: "''A'' \<noteq> ''B''" by simp
  have c2: "cache (closures fake_sAAB ! 0) ''B'' \<noteq> cache (closures fake_sAA ! 0) ''B''"
    by (simp add: fake_sA_def fake_sAA_def fake_sAAB_def)
  have h3: "call 0 ''k'' counting_s1 = Some (Fulfilled (JNum 1), counting_s2)"
    by (simp add: counting_s1_def counting_s2_def eval_defs)
  have c3: "cache (closures counting_s2 ! 0) ''k'' \<noteq> cache (closures counting_s1 ! 0) ''k''"
    by (simp add: counting_s1_def counting_s2_def)
  note f1 = call_frame [OF h1] and f2 = call_frame [OF h2] and f3 = call_frame [OF h3]
  from f1 t1 have r1: "closures fake_sAA = closures fake_sA" by simp
  from f2 n2 have r2: "cache (closures fake_sAAB ! 0) ''A'' = cache (closures fake_sAA ! 0) ''A''"
    by simp
  from f2 have "cache (closures fake_sAAB ! 0) = cache (closures fake_sAA ! 0)
          \<or> (\<exists>v. Fulfilled (JStr ''Data from B'') = Fulfilled v
                 \<and> \<not> truthy (cache_get (cache (closures fake_sAA ! 0)) ''B'')
                 \<and> cache (closures fake_sAAB ! 0) = (cache (closures fake_sAA ! 0))(''B'' \<mapsto> v))"
    by (elim conjE)
  with c2 have r3: "cache (closures fake_sAAB ! 0) = (cache (closures fake_sAA ! 0))(''B'' \<mapsto> JStr ''Data from B'')"
    by auto
  from f3 have "cache (closures counting_s2 ! 0) = cache (closures counting_s1 ! 0)
          \<or> (\<exists>v. Fulfilled (JNum 1) = Fulfilled v
                 \<and> \<not> truthy (cache_get (cache (closures counting_s1 ! 0)) ''k'')
                 \<and> cache (closures counting_s2 ! 0) = (cache (closures counting_s1 ! 0))(''k'' \<mapsto> v))"
    by (elim conjE)
  with c3 have r4: "\<not> truthy (cache_get (cache (closures counting_s1 ! 0)) ''k'')"
    and r5: "cache (closures counting_s2 ! 0) = (cache (closures counting_s1 ! 0))(''k'' \<mapsto> JNum 1)"
    by auto
  from h1 t1 r1 h2 n2 r2 r3 h3 r4 r5 show ?thesis by (intro conjI)
qed

text \<open>
  C7. A call with key \<open>k\<close> should change the store by at most adding one entry, for \<open>k\<close>.
  The code also replaces an entry: the counting endpoint stored \<open>0\<close> for \<open>"k"\<close>; the test of
  line 160 does not find that falsy value, so the next call with \<open>"k"\<close> fetches again and
  overwrites the entry with \<open>1\<close>. The store has the same keys as before and another value.
\<close>

theorem frame_falsy_replaced:
  "call 0 ''k'' counting_s0 = Some (Fulfilled (JNum 0), counting_s1)
   \<and> cache (closures counting_s1 ! 0) ''k'' = Some (JNum 0)
   \<and> call 0 ''k'' counting_s1 = Some (Fulfilled (JNum 1), counting_s2)
   \<and> cache (closures counting_s2 ! 0) ''k'' = Some (JNum 1)
   \<and> dom (cache (closures counting_s2 ! 0)) = dom (cache (closures counting_s1 ! 0))"
  by (simp add: eval_defs counting_s0_def counting_s1_def counting_s2_def)

section \<open>The truthiness gate\<close>




section \<open>Login attempts\<close>

lemma decimal_digit: "n < 10 \<Longrightarrow> decimal n = [digit_char n]"
  by (simp add: decimal.simps)

lemma number_to_string_small: "0 \<le> i \<Longrightarrow> i < 10 \<Longrightarrow> number_to_string i = [digit_char (nat i)]"
  by (simp add: number_to_string_def decimal_digit)

lemma number_to_string_negative: "i < 0 \<Longrightarrow> number_to_string i = CHR ''-'' # decimal (nat (- i))"
  by (simp add: number_to_string_def)

lemma login_calls_attempts:
  "attempts env \<le> maxAttempts \<Longrightarrow>
   attempts (snd (login_calls ps env)) = min maxAttempts (attempts env + int (wrong_passwords ps))"
proof (induction ps arbitrary: env)
  case Nil
  then show ?case by (simp add: wrong_passwords_def)
next
  case (Cons p ps)
  obtain message env' where step: "login p env = (message, env')" by (cases "login p env")
  have snd_eq: "snd (login_calls (p # ps) env) = snd (login_calls ps env')"
    using step by (simp split: prod.splits)
  show ?case
  proof (cases "attempts env \<ge> maxAttempts \<or> p = ''secret123''")
    case True
    with step have env': "env' = env" by (auto simp: login_def split: if_splits)
    from Cons.prems have "attempts (snd (login_calls ps env)) = min maxAttempts (attempts env + int (wrong_passwords ps))"
      by (rule Cons.IH)
    with True Cons.prems snd_eq env' show ?thesis
      by (auto simp: wrong_passwords_def)
  next
    case False
    with step have env': "env' = env\<lparr>attempts := attempts env + 1\<rparr>"
      by (auto simp: login_def Let_def split: if_splits)
    with False have "attempts env' \<le> maxAttempts" by simp
    then have "attempts (snd (login_calls ps env')) = min maxAttempts (attempts env' + int (wrong_passwords ps))"
      by (rule Cons.IH)
    with False snd_eq env' show ?thesis by (simp add: wrong_passwords_def)
  qed
qed

text \<open>
  C9. After any history of calls of the function returned by \<^verbatim>\<open>loginSystem\<close>, the next call
  returns \<open>"Account locked!"\<close> exactly when the history has three or more wrong passwords. The
  third wrong password itself gets \<open>"Wrong password! 0 tries left"\<close>, and once locked the
  correct password \<open>"secret123"\<close> is answered with \<open>"Account locked!"\<close> too.
\<close>

theorem login_lockout:
  assumes env: "env = snd (login_calls history loginSystem)"
  shows "fst (login password env) =
           (if 3 \<le> wrong_passwords history then ''Account locked!''
            else if password = ''secret123'' then ''Login successful!''
            else ''Wrong password! '' @ number_to_string (2 - int (wrong_passwords history)) @ '' tries left'')
       \<and> (wrong_passwords history = 2 \<and> password \<noteq> ''secret123'' \<longrightarrow>
            fst (login password env) = ''Wrong password! 0 tries left'')
       \<and> (fst (login password env) = ''Account locked!'' \<longleftrightarrow> 3 \<le> wrong_passwords history)
       \<and> (3 \<le> wrong_passwords history \<longrightarrow> login ''secret123'' env = (''Account locked!'', env))"
proof -
  have "attempts loginSystem \<le> maxAttempts" by (simp add: loginSystem_def maxAttempts_def)
  then have "attempts (snd (login_calls history loginSystem))
               = min maxAttempts (attempts loginSystem + int (wrong_passwords history))"
    by (rule login_calls_attempts)
  with env have a: "attempts env = min 3 (int (wrong_passwords history))"
    by (simp add: loginSystem_def maxAttempts_def)
  have full: "fst (login password env) =
           (if 3 \<le> wrong_passwords history then ''Account locked!''
            else if password = ''secret123'' then ''Login successful!''
            else ''Wrong password! '' @ number_to_string (2 - int (wrong_passwords history)) @ '' tries left'')"
    using a by (auto simp: login_def maxAttempts_def Let_def)
  have zero: "number_to_string 0 = ''0''"
    by (simp add: number_to_string_small digit_char_def)
  have third: "fst (login password env) = ''Wrong password! 0 tries left''"
    if "wrong_passwords history = 2 \<and> password \<noteq> ''secret123''"
    using that full zero by simp
  have locked: "fst (login password env) = ''Account locked!'' \<longleftrightarrow> 3 \<le> wrong_passwords history"
    using full by simp
  have secret: "login ''secret123'' env = (''Account locked!'', env)" if "3 \<le> wrong_passwords history"
    using that a by (simp add: login_def maxAttempts_def)
  from full third locked secret show ?thesis by blast
qed

text \<open>
  Two wrong passwords, then a third; and a locked account given the correct password.
\<close>

theorem login_lockout_witness:
  "fst (login ''wrong'' (snd (login_calls [''test'', ''wrong''] loginSystem)))
     = ''Wrong password! 0 tries left''
   \<and> wrong_passwords [''test'', ''wrong''] = 2
   \<and> 3 \<le> wrong_passwords [''test'', ''secret123'', ''wrong'', ''wrong'']
   \<and> login ''secret123'' (snd (login_calls [''test'', ''secret123'', ''wrong'', ''wrong''] loginSystem))
     = (''Account locked!'', snd (login_calls [''test'', ''secret123'', ''wrong'', ''wrong''] loginSystem))
   \<and> login_calls [''test'', ''secret123'', ''wrong'', ''wrong'', ''secret123''] loginSystem
     = ([''Wrong password! 2 tries left'', ''Login successful!'', ''Wrong password! 1 tries left'',
         ''Wrong password! 0 tries left'', ''Account locked!''], \<lparr>attempts = 3\<rparr>)"
proof -
  have w1: "wrong_passwords [''test'', ''wrong''] = 2" by (simp add: wrong_passwords_def)
  have p1: "''wrong'' \<noteq> ''secret123''" by simp
  have w2: "3 \<le> wrong_passwords [''test'', ''secret123'', ''wrong'', ''wrong'']"
    by (simp add: wrong_passwords_def)
  have run: "login_calls [''test'', ''secret123'', ''wrong'', ''wrong'', ''secret123''] loginSystem
     = ([''Wrong password! 2 tries left'', ''Login successful!'', ''Wrong password! 1 tries left'',
         ''Wrong password! 0 tries left'', ''Account locked!''], \<lparr>attempts = 3\<rparr>)"
    by (simp add: login_def loginSystem_def maxAttempts_def number_to_string_small digit_char_def)
  note t1 = login_lockout [OF refl, of "''wrong''" "[''test'', ''wrong'']"]
  note t2 = login_lockout [OF refl, of "''secret123''" "[''test'', ''secret123'', ''wrong'', ''wrong'']"]
  from t1 w1 p1 have r1: "fst (login ''wrong'' (snd (login_calls [''test'', ''wrong''] loginSystem)))
     = ''Wrong password! 0 tries left''" by blast
  from t2 w2 have r2: "login ''secret123'' (snd (login_calls [''test'', ''secret123'', ''wrong'', ''wrong''] loginSystem))
     = (''Account locked!'', snd (login_calls [''test'', ''secret123'', ''wrong'', ''wrong''] loginSystem))"
    by blast
  from r1 w1 w2 r2 run show ?thesis by (intro conjI)
qed

section \<open>Coupon uses\<close>





end
